theory Spec2Isabelle
  imports Complex_Main "HOL-Library.Sublist" "HOL-Library.Log_Nat" "HOL-Library.Monad_Syntax"
begin

section \<open>The answer scorer of the interview simulator\<close>

text \<open>
  This theory embeds the two functions \<^verbatim>\<open>normalizeText\<close> and \<^verbatim>\<open>scoreAnswer\<close> of
  \<^verbatim>\<open>src/app/InterviewSimulator.tsx\<close> and the built-in operations of the language they
  call (\<^verbatim>\<open>toLowerCase\<close>, \<^verbatim>\<open>replace\<close> with a character class, \<^verbatim>\<open>split\<close>,
  \<^verbatim>\<open>includes\<close>, \<^verbatim>\<open>reduce\<close>, the arithmetic of the type \<^verbatim>\<open>number\<close>, \<^verbatim>\<open>Math.round\<close>).
\<close>

subsection \<open>Strings and characters\<close>

text \<open>
  A string of the program is a sequence of UTF-16 code units. The model covers the strings
  whose code units lie in U+0000 .. U+00FF: a \<^typ>\<open>char\<close> is the code unit with that
  number (ISO-8859-1). This range is closed under \<^verbatim>\<open>toLowerCase\<close>, and it contains every
  character the two regular expressions of the program name explicitly.
\<close>

definition code :: "char \<Rightarrow> nat" where
  "code c = of_char c"

text \<open>
  \<^verbatim>\<open>String.prototype.toLowerCase\<close>, one code unit at a time: A-Z (U+0041 .. U+005A) and
  the capital letters U+00C0 .. U+00DE other than the multiplication sign U+00D7 move up by
  32; every other code unit of the range stays.
\<close>

definition toLowerChar :: "char \<Rightarrow> char" where
  "toLowerChar c =
     (if (65 \<le> code c \<and> code c \<le> 90) \<or> (192 \<le> code c \<and> code c \<le> 222 \<and> code c \<noteq> 215)
      then char_of (code c + 32) else c)"

definition toLowerCase :: "string \<Rightarrow> string" where
  "toLowerCase s = map toLowerChar s"

text \<open>The class \<^verbatim>\<open>\w\<close> of a regular expression without flags: \<^verbatim>\<open>[A-Za-z0-9_]\<close>.\<close>

definition isWordChar :: "char \<Rightarrow> bool" where
  "isWordChar c =
     ((65 \<le> code c \<and> code c \<le> 90) \<or> (97 \<le> code c \<and> code c \<le> 122)
      \<or> (48 \<le> code c \<and> code c \<le> 57) \<or> code c = 95)"

text \<open>
  The class \<^verbatim>\<open>\s\<close>: white space and line terminators. In the range of the model these are
  tab, line feed, vertical tab, form feed, carriage return, space and the no-break space
  U+00A0.
\<close>

definition isSpaceChar :: "char \<Rightarrow> bool" where
  "isSpaceChar c = (code c \<in> {9, 10, 11, 12, 13, 32, 160})"

text \<open>
  \<^verbatim>\<open>s.replace(/[^\w\s]/g, '')\<close>: every match of the pattern is one character that is
  neither in \<^verbatim>\<open>\w\<close> nor in \<^verbatim>\<open>\s\<close>, and all of them are replaced by the empty string.
\<close>

definition replaceNonWordSpace :: "string \<Rightarrow> string" where
  "replaceNonWordSpace s = filter (\<lambda>c. \<not> (\<not> isWordChar c \<and> \<not> isSpaceChar c)) s"

text \<open>Line 16: \<^verbatim>\<open>function normalizeText(s = '') { return s.toLowerCase().replace(/[^\w\s]/g, ''); }\<close>\<close>

definition normalizeText :: "string \<Rightarrow> string" where
  "normalizeText s = replaceNonWordSpace (toLowerCase s)"

text \<open>
  \<^verbatim>\<open>text.split(/\s+/)\<close>. The separator matches a maximal run of white space; the pieces
  between the matches are returned, an empty piece where the string starts or ends with a
  separator, and the one piece \<^verbatim>\<open>''\<close> for the empty string. \<open>splitSpaces acc s\<close> carries
  the piece read so far.
\<close>

function splitSpaces :: "string \<Rightarrow> string \<Rightarrow> string list" where
  "splitSpaces acc [] = [acc]"
| "splitSpaces acc (c # cs) =
     (if isSpaceChar c then acc # splitSpaces [] (dropWhile isSpaceChar cs)
      else splitSpaces (acc @ [c]) cs)"
  by pat_completeness auto
termination
  by (relation "measure (\<lambda>(acc, s). length s)")
     (auto simp: length_dropWhile_le less_Suc_eq_le)

text \<open>Line 20: \<^verbatim>\<open>text.split(/\s+/).filter(Boolean)\<close>; the only falsy string is the empty one.\<close>

definition wordsOf :: "string \<Rightarrow> string list" where
  "wordsOf text = filter (\<lambda>w. w \<noteq> []) (splitSpaces [] text)"

text \<open>
  \<^verbatim>\<open>text.includes(p)\<close>: some position of \<open>text\<close>, from the first to the one after the last
  character, starts an occurrence of \<open>p\<close>.
\<close>

fun includesStr :: "string \<Rightarrow> string \<Rightarrow> bool" where
  "includesStr [] p = (p = [])"
| "includesStr (c # cs) p = (prefix p (c # cs) \<or> includesStr cs p)"

text \<open>
  Lines 25 and 30: \<^verbatim>\<open>xs.reduce((c, k) => c + (text.includes(f k) ? 1 : 0), 0)\<close>, the
  accumulator \<open>c\<close> running over the array from left to right.
\<close>

definition countIncluded :: "string \<Rightarrow> (string \<Rightarrow> string) \<Rightarrow> string list \<Rightarrow> nat" where
  "countIncluded text f xs = fold (\<lambda>k c. c + (if includesStr text (f k) then 1 else 0)) xs 0"

text \<open>Line 29: the filler vocabulary.\<close>

definition fillers :: "string list" where
  "fillers = [''um'', ''uh'', ''like'', ''you know'', ''so'', ''actually'']"

subsection \<open>Numbers\<close>

text \<open>
  A \<^verbatim>\<open>number\<close> of the program is an IEEE 754 binary64 value. A finite one is modelled by
  the rational it denotes, and every arithmetic operation rounds its exact result to the
  nearest value with a 53-bit significand, ties to the even significand (\<open>fl\<close>). The
  exponent range is not modelled: all quantities of the scorer lie between \<open>2\<^sup>-\<^sup>5\<^sup>3\<close> and
  \<open>100\<close> or are zero, far from overflow and from the subnormal numbers. A result that is
  not finite (a division by zero gives \<^verbatim>\<open>NaN\<close> or an infinity) is \<open>None\<close>.
\<close>

type_synonym number = rat

text \<open>The integer nearest to a rational, the even one of the two at a tie.\<close>

definition roundTiesToEven :: "rat \<Rightarrow> int" where
  "roundTiesToEven x =
     (let f = \<lfloor>x\<rfloor>; r = x - of_int f
      in if r < 1 / 2 then f else if 1 / 2 < r then f + 1 else if even f then f else f + 1)"

text \<open>The binary exponent \<open>e\<close> of a positive rational: \<open>2\<^sup>e \<le> x < 2\<^sup>e\<^sup>+\<^sup>1\<close>.\<close>

definition exponentOf :: "rat \<Rightarrow> int" where
  "exponentOf x =
     (let (p, q) = quotient_of x; d = bitlen p - bitlen q
      in if 2 powi d \<le> x then d else d - 1)"

text \<open>
  Rounding to binary64: a non-zero \<open>x\<close> with exponent \<open>e\<close> lies between neighbours that are
  \<open>2\<^sup>e\<^sup>-\<^sup>5\<^sup>2\<close> apart, and \<open>fl x\<close> is the multiple of \<open>2\<^sup>e\<^sup>-\<^sup>5\<^sup>2\<close> nearest to it, with the sign of
  \<open>x\<close>. For instance \<open>fl (1/3) = 6004799503160661 / 2\<^sup>5\<^sup>4\<close>, the double \<^verbatim>\<open>0x3FD5555555555555\<close>.
\<close>

definition fl :: "rat \<Rightarrow> number" where
  "fl x =
     (if x = 0 then 0
      else let u = 2 powi (exponentOf \<bar>x\<bar> - 52)
           in sgn x * (of_int (roundTiesToEven (\<bar>x\<bar> / u)) * u))"

text \<open>
  The operators \<^verbatim>\<open>+\<close>, \<^verbatim>\<open>-\<close>, \<^verbatim>\<open>*\<close> and \<^verbatim>\<open>/\<close> on numbers; \<^verbatim>\<open>Math.min\<close> and \<^verbatim>\<open>Math.max\<close> on
  finite numbers are \<open>min\<close> and \<open>max\<close>.
\<close>

definition numAdd :: "number \<Rightarrow> number \<Rightarrow> number" where
  "numAdd a b = fl (a + b)"

definition numSub :: "number \<Rightarrow> number \<Rightarrow> number" where
  "numSub a b = fl (a - b)"

definition numMul :: "number \<Rightarrow> number \<Rightarrow> number" where
  "numMul a b = fl (a * b)"

definition numDivide :: "number \<Rightarrow> number \<Rightarrow> number option" where
  "numDivide a b = (if b = 0 then None else Some (fl (a / b)))"

text \<open>
  \<^verbatim>\<open>Math.round\<close>: the integer closest to the argument, the larger one of the two when the
  argument lies halfway between them.
\<close>

definition Math_round :: "number \<Rightarrow> int" where
  "Math_round x = \<lfloor>x + 1 / 2\<rfloor>"

subsection \<open>The scorer\<close>

text \<open>
  Lines 39 to 44: the object that \<^verbatim>\<open>scoreAnswer\<close> returns. Its fields keep their names;
  the local variables of the same names are written with a prime below.
\<close>

record ScoreResult =
  score :: int
  wordCount :: nat
  hits :: nat
  fillerCount :: nat

text \<open>Line 26: \<^verbatim>\<open>const hitRatio = keywords.length ? hits / keywords.length : 0;\<close>\<close>

definition hitRatioOf :: "nat \<Rightarrow> nat \<Rightarrow> number option" where
  "hitRatioOf hits' len = (if len \<noteq> 0 then numDivide (of_nat hits') (of_nat len) else Some 0)"

text \<open>
  Lines 33 to 38, the variable \<^verbatim>\<open>score\<close> after its last update:
  \<^verbatim>\<open>
  let score = 50;
  score += Math.min(20, (hitRatio * 20));
  score += Math.min(15, (Math.min(wordCount, 200) / 200) * 15);
  score -= Math.min(15, fillerCount * 3);
  score += Math.min(10, (unique / Math.max(1, wordCount)) * 10);
  \<close>
\<close>

definition scoreComposition :: "number \<Rightarrow> nat \<Rightarrow> nat \<Rightarrow> nat \<Rightarrow> number option" where
  "scoreComposition hitRatio wordCount' fillerCount' unique =
     do {
       let score' = 50;
       let score' = numAdd score' (min 20 (numMul hitRatio 20));
       lengthRatio \<leftarrow> numDivide (of_nat (min wordCount' 200)) 200;
       let score' = numAdd score' (min 15 (numMul lengthRatio 15));
       let score' = numSub score' (min 15 (numMul (of_nat fillerCount') 3));
       variety \<leftarrow> numDivide (of_nat unique) (of_nat (max 1 wordCount'));
       let score' = numAdd score' (min 10 (numMul variety 10));
       Some score'
     }"

text \<open>Lines 18 to 46. \<^verbatim>\<open>new Set(words).size\<close> is the number of distinct words.\<close>

definition scoreAnswer :: "string \<Rightarrow> string list \<Rightarrow> ScoreResult option" where
  "scoreAnswer transcript keywords =
     (let text = normalizeText transcript;
          words = wordsOf text;
          wordCount' = length words;
          unique = card (set words);
          hits' = countIncluded text toLowerCase keywords
      in do {
        hitRatio \<leftarrow> hitRatioOf hits' (length keywords);
        let fillerCount' = countIncluded text (\<lambda>f. f) fillers;
        score' \<leftarrow> scoreComposition hitRatio wordCount' fillerCount' unique;
        Some \<lparr>score = max 0 (min 100 (Math_round score')), wordCount = wordCount',
              hits = hits', fillerCount = fillerCount'\<rparr>
      })"

subsection \<open>The scoring law of the specification\<close>

text \<open>
  The specification states the score as a law over five counts: the keyword hits, the size
  of the keyword list, the words, the fillers and the distinct words (steps 3, 5 and 6 of
  its algorithm). \<open>exact_score\<close> is the value its sentences give before the clamp: the hit
  ratio is hits over keywords, or 0 for an empty keyword list, and the four adjustments are
  applied to the base 50. The sentences name no rounding of the intermediate values, so
  these are the exact values.
\<close>

definition exact_score :: "nat \<Rightarrow> nat \<Rightarrow> nat \<Rightarrow> nat \<Rightarrow> nat \<Rightarrow> rat" where
  "exact_score hit_count keyword_count word_count filler_count distinct_words =
     50 + min 20 ((if keyword_count = 0 then 0 else of_nat hit_count / of_nat keyword_count) * 20)
        + min 15 (of_nat (min word_count 200) / 200 * 15)
        - min 15 (of_nat filler_count * 3)
        + min 10 (of_nat distinct_words / of_nat (max 1 word_count) * 10)"

text \<open>
  Step 6: the value is clamped to \<open>[0, 100]\<close> and rounded to the nearest integer. This is
  the law as the specification words it; at a tie it takes the larger integer, as
  \<^verbatim>\<open>Math.round\<close> does.
\<close>

definition spec_score :: "nat \<Rightarrow> nat \<Rightarrow> nat \<Rightarrow> nat \<Rightarrow> nat \<Rightarrow> int" where
  "spec_score hit_count keyword_count word_count filler_count distinct_words =
     Math_round (max 0 (min 100
       (exact_score hit_count keyword_count word_count filler_count distinct_words)))"

text \<open>
  The same law in the arithmetic of the program's numbers: the result of every division,
  multiplication, addition and subtraction is rounded to binary64, in the order of the
  specification's sentences; the clamp and the final rounding are those of step 6.
\<close>

definition binary64_score :: "nat \<Rightarrow> nat \<Rightarrow> nat \<Rightarrow> nat \<Rightarrow> nat \<Rightarrow> int" where
  "binary64_score hit_count keyword_count word_count filler_count distinct_words =
     (let hit_ratio = (if keyword_count = 0 then 0
                       else fl (of_nat hit_count / of_nat keyword_count));
          s0 = 50;
          s1 = fl (s0 + min 20 (fl (hit_ratio * 20)));
          s2 = fl (s1 + min 15 (fl (fl (of_nat (min word_count 200) / 200) * 15)));
          s3 = fl (s2 - min 15 (fl (of_nat filler_count * 3)));
          s4 = fl (s3 + min 10 (fl (fl (of_nat distinct_words / of_nat (max 1 word_count)) * 10)))
      in Math_round (max 0 (min 100 s4)))"

text \<open>
  The specification calls a character alphanumeric; the letters and digits of ASCII are
  meant here. The underscore is not among them under any reading.
\<close>

definition isAlphanumeric :: "char \<Rightarrow> bool" where
  "isAlphanumeric c =
     ((65 \<le> code c \<and> code c \<le> 90) \<or> (97 \<le> code c \<and> code c \<le> 122)
      \<or> (48 \<le> code c \<and> code c \<le> 57))"

subsection \<open>Normalization of arbitrary strings\<close>







section \<open>Properties of the number model\<close>

lemma bitlen_powi_bounds:
  assumes "0 < p"
  shows "(2::rat) powi (bitlen p - 1) \<le> of_int p" "of_int p < (2::rat) powi bitlen p"
proof -
  have b: "1 \<le> bitlen p" using assms bitlen_eq_zero_iff [of p] bitlen_nonneg [of p] by linarith
  have "(2::int) ^ nat (bitlen p - 1) \<le> p" "p < 2 ^ nat (bitlen p)"
    using bitlen_bounds [OF assms] by simp_all
  then have "(of_int (2 ^ nat (bitlen p - 1)) :: rat) \<le> of_int p" "(of_int p :: rat) < of_int (2 ^ nat (bitlen p))"
    by (simp_all only: of_int_le_iff of_int_less_iff)
  then show "(2::rat) powi (bitlen p - 1) \<le> of_int p" "of_int p < (2::rat) powi bitlen p"
    using b by (simp_all add: power_int_def)
qed

lemma quot_bounds:
  assumes "0 < p" "0 < q"
  shows "(2::rat) powi (bitlen p - bitlen q - 1) < of_int p / of_int q"
        "of_int p / of_int q < (2::rat) powi (bitlen p - bitlen q + 1)"
proof -
  note P = bitlen_powi_bounds [OF assms(1)] and Q = bitlen_powi_bounds [OF assms(2)]
  have qpos: "(0::rat) < of_int q" using assms by simp
  have "(2::rat) powi (bitlen p - bitlen q - 1) * of_int q < 2 powi (bitlen p - bitlen q - 1) * 2 powi bitlen q"
    using Q(2) by (simp add: mult_strict_left_mono)
  also have "\<dots> = 2 powi (bitlen p - 1)"
    by (simp add: power_int_add [symmetric])
  also have "\<dots> \<le> of_int p" by (rule P(1))
  finally show "(2::rat) powi (bitlen p - bitlen q - 1) < of_int p / of_int q"
    using qpos by (simp add: pos_less_divide_eq)
  have "of_int p < (2::rat) powi bitlen p" by (rule P(2))
  also have "\<dots> = 2 powi (bitlen p - bitlen q + 1) * 2 powi (bitlen q - 1)"
    by (simp add: power_int_add [symmetric])
  also have "\<dots> \<le> 2 powi (bitlen p - bitlen q + 1) * of_int q"
    using Q(1) by (simp add: mult_left_mono)
  finally show "of_int p / of_int q < (2::rat) powi (bitlen p - bitlen q + 1)"
    using qpos by (simp add: pos_divide_less_eq)
qed

lemma exponentOf_bounds:
  assumes "0 < x"
  shows "2 powi exponentOf x \<le> x" "x < 2 powi (exponentOf x + 1)"
proof -
  obtain p q where pq: "quotient_of x = (p, q)" by (cases "quotient_of x")
  have q: "0 < q" using pq by (rule quotient_of_denom_pos)
  have x: "x = of_int p / of_int q" using pq by (rule quotient_of_div)
  have p: "0 < p" using assms q x by (simp add: zero_less_divide_iff)
  note B = quot_bounds [OF p q, folded x]
  show "2 powi exponentOf x \<le> x"
    using B by (auto simp: exponentOf_def pq Let_def)
  show "x < 2 powi (exponentOf x + 1)"
    using B by (auto simp: exponentOf_def pq Let_def)
qed

lemma exponentOf_mono:
  assumes "0 < x" "x \<le> y"
  shows "exponentOf x \<le> exponentOf y"
proof (rule ccontr)
  assume "\<not> exponentOf x \<le> exponentOf y"
  then have "exponentOf y + 1 \<le> exponentOf x" by simp
  then have "(2::rat) powi (exponentOf y + 1) \<le> 2 powi exponentOf x"
    by (simp add: power_int_increasing)
  also have "\<dots> \<le> x" using assms exponentOf_bounds by simp
  also have "\<dots> \<le> y" by fact
  also have "\<dots> < 2 powi (exponentOf y + 1)" using assms exponentOf_bounds [of y] by simp
  finally show False by simp
qed

lemma roundTiesToEven_of_int: "roundTiesToEven (of_int k) = k"
  by (simp add: roundTiesToEven_def)

lemma roundTiesToEven_bounds: "\<lfloor>x\<rfloor> \<le> roundTiesToEven x" "roundTiesToEven x \<le> \<lfloor>x\<rfloor> + 1"
  by (simp_all add: roundTiesToEven_def Let_def)

lemma roundTiesToEven_mono:
  assumes "x \<le> y"
  shows "roundTiesToEven x \<le> roundTiesToEven y"
proof (cases "\<lfloor>x\<rfloor> = \<lfloor>y\<rfloor>")
  case True
  then show ?thesis using assms by (auto simp: roundTiesToEven_def Let_def)
next
  case False
  then have "\<lfloor>x\<rfloor> + 1 \<le> \<lfloor>y\<rfloor>" using floor_mono [OF assms] by linarith
  then show ?thesis
    using roundTiesToEven_bounds(2) [of x] roundTiesToEven_bounds(1) [of y] by linarith
qed

lemma fl_pos:
  assumes "0 < x"
  shows "fl x = of_int (roundTiesToEven (x / 2 powi (exponentOf x - 52))) * 2 powi (exponentOf x - 52)"
  using assms by (simp add: fl_def Let_def)

lemma fl_pos_bounds:
  assumes "0 < x"
  shows "2 powi exponentOf x \<le> fl x" "fl x \<le> 2 powi (exponentOf x + 1)"
proof -
  let ?e = "exponentOf x"
  let ?u = "(2::rat) powi (?e - 52)"
  have u: "0 < ?u" by simp
  have e52: "(2::rat) powi 52 = of_int (2 ^ 52)" and e53: "(2::rat) powi 53 = of_int (2 ^ 53)"
    by (simp_all add: power_int_def)
  have lo: "(2::rat) powi ?e = of_int (2 ^ 52) * ?u"
  proof -
    have "?e = 52 + (?e - 52)" by simp
    then have "(2::rat) powi ?e = 2 powi (52 + (?e - 52))" by (simp only:)
    also have "\<dots> = 2 powi 52 * 2 powi (?e - 52)" by (rule power_int_add) simp
    finally show ?thesis by (simp only: e52)
  qed
  have hi: "(2::rat) powi (?e + 1) = of_int (2 ^ 53) * ?u"
  proof -
    have "?e + 1 = 53 + (?e - 52)" by simp
    then have "(2::rat) powi (?e + 1) = 2 powi (53 + (?e - 52))" by (simp only:)
    also have "\<dots> = 2 powi 53 * 2 powi (?e - 52)" by (rule power_int_add) simp
    finally show ?thesis by (simp only: e53)
  qed
  have "of_int (2 ^ 52) \<le> x / ?u"
    using exponentOf_bounds(1) [OF assms] u unfolding lo by (simp add: pos_le_divide_eq)
  then have "roundTiesToEven (of_int (2 ^ 52)) \<le> roundTiesToEven (x / ?u)"
    by (rule roundTiesToEven_mono)
  then have "(of_int (2 ^ 52) :: rat) \<le> of_int (roundTiesToEven (x / ?u))"
    unfolding roundTiesToEven_of_int by (simp only: of_int_le_iff)
  then have "of_int (2 ^ 52) * ?u \<le> of_int (roundTiesToEven (x / ?u)) * ?u"
    using u by (simp only: mult_le_cancel_right_pos)
  then show "2 powi ?e \<le> fl x"
    unfolding fl_pos [OF assms] lo .
  have "x / ?u \<le> of_int (2 ^ 53)"
    using exponentOf_bounds(2) [OF assms] u unfolding hi by (simp add: pos_divide_le_eq)
  then have "roundTiesToEven (x / ?u) \<le> roundTiesToEven (of_int (2 ^ 53))"
    by (rule roundTiesToEven_mono)
  then have "(of_int (roundTiesToEven (x / ?u)) :: rat) \<le> of_int (2 ^ 53)"
    unfolding roundTiesToEven_of_int by (simp only: of_int_le_iff)
  then have "of_int (roundTiesToEven (x / ?u)) * ?u \<le> of_int (2 ^ 53) * ?u"
    using u by (simp only: mult_le_cancel_right_pos)
  then show "fl x \<le> 2 powi (?e + 1)"
    unfolding fl_pos [OF assms] hi .
qed

lemma fl_zero: "fl 0 = 0"
  by (simp add: fl_def)

lemma fl_pos_pos: "0 < x \<Longrightarrow> 0 < fl x"
  using fl_pos_bounds(1) [of x] zero_less_power_int [of "2::rat" "exponentOf x"]
  by linarith

lemma fl_mono_pos:
  assumes "0 < x" "x \<le> y"
  shows "fl x \<le> fl y"
proof -
  have y: "0 < y" using assms by simp
  have le: "exponentOf x \<le> exponentOf y" using assms by (rule exponentOf_mono)
  show ?thesis
  proof (cases "exponentOf x = exponentOf y")
    case True
    let ?u = "(2::rat) powi (exponentOf y - 52)"
    have u: "0 < ?u" by simp
    have "x / ?u \<le> y / ?u" using assms u by (simp add: divide_right_mono)
    then have "roundTiesToEven (x / ?u) \<le> roundTiesToEven (y / ?u)"
      by (rule roundTiesToEven_mono)
    then have "(of_int (roundTiesToEven (x / ?u)) :: rat) * ?u \<le> of_int (roundTiesToEven (y / ?u)) * ?u"
      using u by (simp only: mult_le_cancel_right_pos of_int_le_iff)
    then show ?thesis
      unfolding fl_pos [OF assms(1)] fl_pos [OF y] True .
  next
    case False
    then have "exponentOf x + 1 \<le> exponentOf y" using le by simp
    then have "(2::rat) powi (exponentOf x + 1) \<le> 2 powi exponentOf y"
      by (simp add: power_int_increasing)
    then show ?thesis
      using fl_pos_bounds(2) [OF assms(1)] fl_pos_bounds(1) [OF y] by linarith
  qed
qed

lemma fl_minus: "fl (- x) = - fl x"
  by (simp add: fl_def Let_def sgn_minus)

lemma fl_mono_nonneg:
  assumes "0 \<le> x" "x \<le> y"
  shows "fl x \<le> fl y"
proof (cases "x = 0")
  case True
  show ?thesis
  proof (cases "y = 0")
    case True
    with \<open>x = 0\<close> show ?thesis by simp
  next
    case False
    then have "0 < y" using assms by simp
    then show ?thesis using fl_pos_pos [of y] \<open>x = 0\<close> by (simp add: fl_zero)
  qed
next
  case False
  then have "0 < x" using assms by simp
  then show ?thesis using assms(2) by (rule fl_mono_pos)
qed

lemma fl_mono:
  assumes "x \<le> y"
  shows "fl x \<le> fl y"
proof (cases "0 \<le> x")
  case True
  then show ?thesis using assms by (rule fl_mono_nonneg)
next
  case xneg: False
  show ?thesis
  proof (cases "y \<le> 0")
    case True
    then have "fl (- y) \<le> fl (- x)" using assms by (intro fl_mono_nonneg) simp_all
    then show ?thesis by (simp add: fl_minus)
  next
    case False
    have "fl 0 \<le> fl y" using False by (intro fl_mono_nonneg) simp_all
    moreover have "fl 0 \<le> fl (- x)" using xneg by (intro fl_mono_nonneg) simp_all
    ultimately show ?thesis by (simp add: fl_minus fl_zero)
  qed
qed

text \<open>
  Known doubles: the one nearest to \<open>1/3\<close>, and the ties at \<open>2\<^sup>5\<^sup>3 + 1\<close> and \<open>2\<^sup>5\<^sup>3 + 3\<close>, which
  go to the even significand.
\<close>

lemma fl_examples:
  "fl (1 / 3) = 6004799503160661 / 2 ^ 54"
  "fl (2 ^ 53 + 1) = 2 ^ 53"
  "fl (2 ^ 53 + 3) = 2 ^ 53 + 4"
  by code_simp+

lemma fl_consts:
  "fl 1 = 1" "fl 10 = 10" "fl 15 = 15" "fl 20 = 20" "fl 35 = 35" "fl 50 = 50"
  "fl 70 = 70" "fl 85 = 85" "fl 95 = 95"
  by (simp_all add: fl_def exponentOf_def roundTiesToEven_def compute_bitlen)

section \<open>Properties of the string operations and of the scorer\<close>

lemma includesStr_iff: "includesStr t p \<longleftrightarrow> (\<exists>u v. t = u @ p @ v)"
proof (induction t)
  case Nil
  then show ?case by simp
next
  case (Cons c cs)
  show ?case
  proof
    assume "includesStr (c # cs) p"
    then consider "prefix p (c # cs)" | "includesStr cs p" by auto
    then show "\<exists>u v. c # cs = u @ p @ v"
    proof cases
      case 1
      then obtain v where "c # cs = p @ v" by (auto simp: prefix_def)
      then have "c # cs = [] @ p @ v" by simp
      then show ?thesis by blast
    next
      case 2
      then obtain u v where "cs = u @ p @ v" using Cons.IH by blast
      then have "c # cs = (c # u) @ p @ v" by simp
      then show ?thesis by blast
    qed
  next
    assume "\<exists>u v. c # cs = u @ p @ v"
    then obtain u v where uv: "c # cs = u @ p @ v" by blast
    show "includesStr (c # cs) p"
    proof (cases u)
      case Nil
      then have "prefix p (c # cs)" using uv by (simp add: prefix_def)
      then show ?thesis by simp
    next
      case (Cons d u')
      then have "cs = u' @ p @ v" using uv by simp
      then have "includesStr cs p" using Cons.IH by blast
      then show ?thesis by simp
    qed
  qed
qed

lemma fold_count:
  "fold (\<lambda>k c. c + (if P k then 1 else 0)) xs (a::nat) = a + length (filter P xs)"
  by (induction xs arbitrary: a) simp_all

lemma countIncluded_filter:
  "countIncluded text f xs = length (filter (\<lambda>k. includesStr text (f k)) xs)"
  by (simp add: countIncluded_def fold_count)

lemma countIncluded_le: "countIncluded text f xs \<le> length xs"
  by (simp add: countIncluded_filter)

lemma numDivide_Some: "b \<noteq> 0 \<Longrightarrow> numDivide a b = Some (fl (a / b))"
  by (simp add: numDivide_def)

lemma hitRatioOf_Some:
  "hitRatioOf h n = Some (if n = 0 then 0 else fl (of_nat h / of_nat n))"
  by (simp add: hitRatioOf_def numDivide_def)

lemma scoreComposition_Some:
  "scoreComposition hr wc fc u =
     Some (fl (fl (fl (fl (50 + min 20 (fl (hr * 20)))
                 + min 15 (fl (fl (of_nat (min wc 200) / 200) * 15)))
             - min 15 (fl (of_nat fc * 3)))
         + min 10 (fl (fl (of_nat u / of_nat (max 1 wc)) * 10))))"
  by (simp add: scoreComposition_def numDivide_def numAdd_def numSub_def numMul_def Let_def)

lemma hitRatioOf_total: "\<exists>hr. hitRatioOf h n = Some hr"
  by (simp add: hitRatioOf_Some)

lemma scoreComposition_total: "\<exists>s. scoreComposition hr wc fc u = Some s"
  by (simp add: scoreComposition_Some)

text \<open>
  Every run of \<open>scoreAnswer\<close> goes through the same steps: a hit ratio \<open>hr\<close>, a value
  \<open>s\<close> of the variable \<^verbatim>\<open>score\<close>, and the returned object.
\<close>

lemma scoreAnswer_cases:
  obtains hr s where
    "hitRatioOf (countIncluded (normalizeText t) toLowerCase ks) (length ks) = Some hr"
    "scoreComposition hr (length (wordsOf (normalizeText t)))
       (countIncluded (normalizeText t) (\<lambda>f. f) fillers)
       (card (set (wordsOf (normalizeText t)))) = Some s"
    "scoreAnswer t ks =
       Some \<lparr>score = max 0 (min 100 (Math_round s)),
             wordCount = length (wordsOf (normalizeText t)),
             hits = countIncluded (normalizeText t) toLowerCase ks,
             fillerCount = countIncluded (normalizeText t) (\<lambda>f. f) fillers\<rparr>"
proof -
  obtain hr where
    hr: "hitRatioOf (countIncluded (normalizeText t) toLowerCase ks) (length ks) = Some hr"
    using hitRatioOf_total by blast
  obtain s where
    s: "scoreComposition hr (length (wordsOf (normalizeText t)))
          (countIncluded (normalizeText t) (\<lambda>f. f) fillers)
          (card (set (wordsOf (normalizeText t)))) = Some s"
    using scoreComposition_total by blast
  have "scoreAnswer t ks =
       Some \<lparr>score = max 0 (min 100 (Math_round s)),
             wordCount = length (wordsOf (normalizeText t)),
             hits = countIncluded (normalizeText t) toLowerCase ks,
             fillerCount = countIncluded (normalizeText t) (\<lambda>f. f) fillers\<rparr>"
    by (simp add: scoreAnswer_def Let_def hr s)
  with hr s show ?thesis by (rule that)
qed

lemma Math_round_mono: "x \<le> y \<Longrightarrow> Math_round x \<le> Math_round y"
  by (simp add: Math_round_def floor_mono)

lemma Math_round_clamp:
  "Math_round (max 0 (min 100 s)) = max 0 (min 100 (Math_round s))"
proof -
  have r0: "Math_round 0 = 0" and r100: "Math_round 100 = 100"
    unfolding Math_round_def by linarith+
  consider "s < 0" | "0 \<le> s" "s \<le> 100" | "100 < s" by linarith
  then show ?thesis
  proof cases
    case 1
    then have "Math_round s \<le> 0" unfolding Math_round_def by linarith
    then show ?thesis using 1 r0 by simp
  next
    case 2
    then have "0 \<le> Math_round s" "Math_round s \<le> 100" unfolding Math_round_def by linarith+
    then show ?thesis using 2 by simp
  next
    case 3
    then have "100 \<le> Math_round s" unfolding Math_round_def by linarith
    then show ?thesis using 3 r100 by simp
  qed
qed

lemma code_inj: "code c = code d \<Longrightarrow> c = d"
  by (simp add: code_def)

lemma code_underscore: "code c = 95 \<longleftrightarrow> c = CHR ''_''"
proof
  assume "code c = 95"
  then have "code c = code CHR ''_''" by (simp add: code_def)
  then show "c = CHR ''_''" by (rule code_inj)
next
  assume "c = CHR ''_''"
  then show "code c = 95" by (simp add: code_def)
qed

lemma code_less: "code c < 256"
  unfolding code_def by (rule nat_of_char_less_256)

lemma code_toLowerChar:
  "code (toLowerChar c) =
     (if (65 \<le> code c \<and> code c \<le> 90) \<or> (192 \<le> code c \<and> code c \<le> 222 \<and> code c \<noteq> 215)
      then code c + 32 else code c)"
  by (simp add: toLowerChar_def code_def)

lemma toLowerChar_not_upper: "\<not> (65 \<le> code (toLowerChar c) \<and> code (toLowerChar c) \<le> 90)"
  using code_less [of c] by (simp add: code_toLowerChar)

lemma isWordChar_alt: "isWordChar c \<longleftrightarrow> isAlphanumeric c \<or> c = CHR ''_''"
  by (auto simp: isWordChar_def isAlphanumeric_def code_underscore)

lemma replaceNonWordSpace_alt:
  "replaceNonWordSpace s = filter (\<lambda>c. isAlphanumeric c \<or> c = CHR ''_'' \<or> isSpaceChar c) s"
  by (simp add: replaceNonWordSpace_def isWordChar_alt disj_assoc)

lemma toLowerCase_Nil_iff: "toLowerCase k = [] \<longleftrightarrow> k = []"
  by (simp add: toLowerCase_def)

lemma normalizeText_Nil: "normalizeText [] = []"
  by (simp add: normalizeText_def replaceNonWordSpace_def toLowerCase_def)

lemma wordsOf_Nil: "wordsOf [] = []"
  by (simp add: wordsOf_def)

lemma countIncluded_Nil_text:
  "countIncluded [] f xs = length (filter (\<lambda>k. f k = []) xs)"
  by (simp add: countIncluded_filter)

lemma countIncluded_fillers_Nil: "countIncluded [] (\<lambda>f. f) fillers = 0"
  by (simp add: countIncluded_Nil_text fillers_def)

lemma scoreComposition_zero: "scoreComposition 0 0 0 0 = Some 50"
  by (simp add: scoreComposition_Some fl_zero fl_consts)

lemma Math_round_of_int: "Math_round (of_int k) = k"
  unfolding Math_round_def by linarith

lemma scoreAnswer_fields:
  "\<exists>r. scoreAnswer t ks = Some r
     \<and> wordCount r = length (wordsOf (normalizeText t))
     \<and> hits r = countIncluded (normalizeText t) toLowerCase ks
     \<and> fillerCount r = countIncluded (normalizeText t) (\<lambda>f. f) fillers"
proof -
  obtain hr s where
    r: "scoreAnswer t ks =
       Some \<lparr>score = max 0 (min 100 (Math_round s)),
             wordCount = length (wordsOf (normalizeText t)),
             hits = countIncluded (normalizeText t) toLowerCase ks,
             fillerCount = countIncluded (normalizeText t) (\<lambda>f. f) fillers\<rparr>"
    by (rule scoreAnswer_cases)
  show ?thesis unfolding r by simp
qed

lemma fl_nonneg: "0 \<le> x \<Longrightarrow> 0 \<le> fl x"
  using fl_mono [of 0 x] by (simp add: fl_zero)

lemma fl_between:
  assumes "lo \<le> x" "x \<le> hi" "fl lo = lo" "fl hi = hi"
  shows "lo \<le> fl x" "fl x \<le> hi"
  using fl_mono [OF assms(1)] fl_mono [OF assms(2)] assms(3,4) by simp_all

lemma capped_bounds:
  assumes "0 \<le> x" "0 \<le> c"
  shows "0 \<le> min c (fl x)" "min c (fl x) \<le> c"
  using fl_nonneg [OF assms(1)] assms(2) by simp_all

lemma scoreComposition_bounds:
  assumes "0 \<le> hr" "scoreComposition hr wc fc u = Some s"
  shows "35 \<le> s" "s \<le> 95"
proof -
  define a where "a = min 20 (fl (hr * 20))"
  define b where "b = min 15 (fl (fl (of_nat (min wc 200) / 200) * 15))"
  define c where "c = min 15 (fl (of_nat fc * 3))"
  define d where "d = min 10 (fl (fl (of_nat u / of_nat (max 1 wc)) * 10))"
  have s: "s = fl (fl (fl (fl (50 + a) + b) - c) + d)"
    using assms(2) unfolding scoreComposition_Some a_def b_def c_def d_def by simp
  have a: "0 \<le> a" "a \<le> 20"
    unfolding a_def using assms(1) by (intro capped_bounds; simp)+
  have "0 \<le> fl (of_nat (min wc 200) / 200)" by (intro fl_nonneg) simp
  then have b: "0 \<le> b" "b \<le> 15"
    unfolding b_def by (intro capped_bounds; simp)+
  have c: "0 \<le> c" "c \<le> 15"
    unfolding c_def by (intro capped_bounds; simp)+
  have "0 \<le> fl (of_nat u / of_nat (max 1 wc))" by (intro fl_nonneg) simp
  then have d: "0 \<le> d" "d \<le> 10"
    unfolding d_def by (intro capped_bounds; simp)+
  have s1: "50 \<le> fl (50 + a)" "fl (50 + a) \<le> 70"
    using a by (intro fl_between [where lo = 50 and hi = 70]; simp add: fl_consts)+
  have s2: "50 \<le> fl (fl (50 + a) + b)" "fl (fl (50 + a) + b) \<le> 85"
    using s1 b by (intro fl_between [where lo = 50 and hi = 85]; simp add: fl_consts)+
  have s3: "35 \<le> fl (fl (fl (50 + a) + b) - c)" "fl (fl (fl (50 + a) + b) - c) \<le> 85"
    using s2 c by (intro fl_between [where lo = 35 and hi = 85]; simp add: fl_consts)+
  show "35 \<le> s" "s \<le> 95"
    unfolding s using s3 d by (intro fl_between [where lo = 35 and hi = 95]; simp add: fl_consts)+
qed

lemma hitRatioOf_nonneg:
  assumes "hitRatioOf h n = Some hr"
  shows "0 \<le> hr"
proof -
  have "0 \<le> fl (of_nat h / of_nat n)" by (intro fl_nonneg) simp
  then show ?thesis using assms unfolding hitRatioOf_Some by (simp split: if_splits)
qed

lemma hitRatioOf_mono:
  assumes "h \<le> h'" "hitRatioOf h n = Some hr" "hitRatioOf h' n = Some hr'"
  shows "hr \<le> hr'"
proof -
  have "(of_nat h :: rat) / of_nat n \<le> of_nat h' / of_nat n"
    using assms(1) by (simp add: divide_right_mono)
  then have "fl (of_nat h / of_nat n) \<le> fl (of_nat h' / of_nat n)" by (rule fl_mono)
  then show ?thesis using assms(2,3) unfolding hitRatioOf_Some by (simp split: if_splits)
qed

lemma scoreComposition_mono:
  assumes "hr \<le> hr'" "scoreComposition hr wc fc u = Some s" "scoreComposition hr' wc fc u = Some s'"
  shows "s \<le> s'"
proof -
  define b where "b = min 15 (fl (fl (of_nat (min wc 200) / 200) * 15))"
  define c where "c = min 15 (fl (of_nat fc * 3))"
  define d where "d = min 10 (fl (fl (of_nat u / of_nat (max 1 wc)) * 10))"
  have s: "s = fl (fl (fl (fl (50 + min 20 (fl (hr * 20))) + b) - c) + d)"
    using assms(2) unfolding scoreComposition_Some b_def c_def d_def by simp
  have s': "s' = fl (fl (fl (fl (50 + min 20 (fl (hr' * 20))) + b) - c) + d)"
    using assms(3) unfolding scoreComposition_Some b_def c_def d_def by simp
  have "hr * 20 \<le> hr' * 20" using assms(1) by simp
  then have "fl (hr * 20) \<le> fl (hr' * 20)" by (rule fl_mono)
  then have "50 + min 20 (fl (hr * 20)) \<le> 50 + min 20 (fl (hr' * 20))" by simp
  then have "fl (50 + min 20 (fl (hr * 20))) \<le> fl (50 + min 20 (fl (hr' * 20)))" by (rule fl_mono)
  then have "fl (50 + min 20 (fl (hr * 20))) + b \<le> fl (50 + min 20 (fl (hr' * 20))) + b" by simp
  then have "fl (fl (50 + min 20 (fl (hr * 20))) + b) \<le> fl (fl (50 + min 20 (fl (hr' * 20))) + b)"
    by (rule fl_mono)
  then have "fl (fl (50 + min 20 (fl (hr * 20))) + b) - c \<le> fl (fl (50 + min 20 (fl (hr' * 20))) + b) - c"
    by simp
  then have "fl (fl (fl (50 + min 20 (fl (hr * 20))) + b) - c)
      \<le> fl (fl (fl (50 + min 20 (fl (hr' * 20))) + b) - c)"
    by (rule fl_mono)
  then have "fl (fl (fl (50 + min 20 (fl (hr * 20))) + b) - c) + d
      \<le> fl (fl (fl (50 + min 20 (fl (hr' * 20))) + b) - c) + d"
    by simp
  then show ?thesis unfolding s s' by (rule fl_mono)
qed








subsection \<open>Accuracy of the binary64 evaluation\<close>

text \<open>
  Every rounding has a relative error of at most \<open>2\<^sup>-\<^sup>5\<^sup>3\<close>. Through the operations of the score
  composition the errors add up to at most \<open>425 / 2\<^sup>5\<^sup>3\<close>: the variable \<^verbatim>\<open>score\<close> is that
  close to the value \<open>exact_score\<close> of the law in exact arithmetic.
\<close>

lemma roundTiesToEven_error: "\<bar>of_int (roundTiesToEven t) - t\<bar> \<le> (1 / 2 :: rat)"
proof -
  define f where "f = \<lfloor>t\<rfloor>"
  have b: "of_int f \<le> t" "t < of_int f + 1" unfolding f_def by linarith+
  have e: "roundTiesToEven t =
      (if t - of_int f < 1 / 2 then f else if 1 / 2 < t - of_int f then f + 1
       else if even f then f else f + 1)"
    unfolding f_def roundTiesToEven_def Let_def ..
  show ?thesis unfolding e using b by (auto simp: abs_if)
qed

lemma fl_error_pos:
  assumes "0 < x"
  shows "\<bar>fl x - x\<bar> \<le> x / 2 ^ 53"
proof -
  let ?e = "exponentOf x"
  let ?u = "(2::rat) powi (?e - 52)"
  have u: "0 < ?u" by simp
  have "\<bar>fl x - x\<bar> = \<bar>of_int (roundTiesToEven (x / ?u)) * ?u - (x / ?u) * ?u\<bar>"
    using u by (simp add: fl_pos [OF assms])
  also have "\<dots> = \<bar>of_int (roundTiesToEven (x / ?u)) - x / ?u\<bar> * ?u"
    using u by (simp only: left_diff_distrib [symmetric] abs_mult abs_of_pos)
  also have "\<dots> \<le> (1 / 2) * ?u"
    using u roundTiesToEven_error [of "x / ?u"] by (simp only: mult_le_cancel_right_pos)
  also have "(1 / 2) * ?u = 2 powi ?e / 2 ^ 53"
  proof -
    have "(2::rat) powi ?e = 2 powi (52 + (?e - 52))" by simp
    also have "\<dots> = 2 powi 52 * ?u" by (rule power_int_add) simp
    also have "(2::rat) powi 52 = 2 ^ 52" by (simp add: power_int_def)
    finally show ?thesis by simp
  qed
  also have "\<dots> \<le> x / 2 ^ 53"
    using exponentOf_bounds(1) [OF assms] by (simp add: divide_right_mono)
  finally show ?thesis .
qed

lemma fl_error: "\<bar>fl x - x\<bar> \<le> \<bar>x\<bar> / 2 ^ 53"
proof -
  consider "x = 0" | "0 < x" | "x < 0" by linarith
  then show ?thesis
  proof cases
    case 1
    then show ?thesis by (simp add: fl_zero)
  next
    case 2
    then show ?thesis using fl_error_pos [of x] by simp
  next
    case 3
    then have "\<bar>fl (- x) - (- x)\<bar> \<le> (- x) / 2 ^ 53" by (intro fl_error_pos) simp
    then show ?thesis using 3 by (simp add: fl_minus abs_minus_commute)
  qed
qed

lemma fl_error_bound:
  assumes "\<bar>x\<bar> \<le> B"
  shows "\<bar>fl x - x\<bar> \<le> B / 2 ^ 53"
proof -
  have "\<bar>x\<bar> / 2 ^ 53 \<le> B / 2 ^ 53" using assms by (simp add: divide_right_mono)
  then show ?thesis using fl_error [of x] by linarith
qed


lemma fl_small_multiples: "fl 3 = 3" "fl 6 = 6" "fl 9 = 9" "fl 12 = 12"
  by (simp_all add: fl_def exponentOf_def roundTiesToEven_def compute_bitlen)

lemma filler_penalty_exact: "min 15 (fl (of_nat fc * 3)) = min 15 (of_nat fc * 3)"
proof (cases "fc \<le> 4")
  case True
  then consider "fc = 0" | "fc = 1" | "fc = 2" | "fc = 3" | "fc = 4" by linarith
  then show ?thesis
    by cases (simp_all add: fl_zero fl_small_multiples)
next
  case False
  then have "(15::rat) \<le> of_nat fc * 3" by simp
  then have "fl 15 \<le> fl (of_nat fc * 3)" by (rule fl_mono)
  then have "15 \<le> fl (of_nat fc * 3)" by (simp add: fl_consts)
  then show ?thesis using \<open>(15::rat) \<le> of_nat fc * 3\<close> by simp
qed

text \<open>
  A quotient in \<open>[0, 1]\<close> scaled by a positive constant \<open>k\<close>: two roundings, each with a
  relative error of at most \<open>2\<^sup>-\<^sup>5\<^sup>3\<close>.
\<close>

lemma scaled_ratio_error:
  assumes "0 \<le> q" "q \<le> 1" "0 \<le> k"
  shows "\<bar>fl (fl q * k) - q * k\<bar> \<le> 2 * k / 2 ^ 53" "0 \<le> fl (fl q * k)"
proof -
  define ke where "ke = k / 2 ^ 53"
  have q1: "\<bar>fl q - q\<bar> \<le> 1 / 2 ^ 53" using assms by (intro fl_error_bound) simp
  have r: "0 \<le> fl q" "fl q \<le> 1"
    using assms by (intro fl_between [where lo = 0 and hi = 1]; simp add: fl_zero fl_consts)+
  have "\<bar>fl q * k\<bar> \<le> k" using r assms(3) by (simp add: abs_mult mult_left_le_one_le)
  then have q2: "\<bar>fl (fl q * k) - fl q * k\<bar> \<le> ke" unfolding ke_def by (rule fl_error_bound)
  have "\<bar>fl q * k - q * k\<bar> = \<bar>fl q - q\<bar> * k"
    using assms(3) by (simp add: left_diff_distrib [symmetric] abs_mult)
  also have "\<dots> \<le> (1 / 2 ^ 53) * k" using q1 assms(3) by (rule mult_right_mono)
  finally have q3: "\<bar>fl q * k - q * k\<bar> \<le> ke" by (simp add: ke_def)
  have "\<bar>fl (fl q * k) - q * k\<bar> \<le> 2 * ke" using q2 q3 by linarith
  then show "\<bar>fl (fl q * k) - q * k\<bar> \<le> 2 * k / 2 ^ 53" by (simp add: ke_def)
  show "0 \<le> fl (fl q * k)" using r assms(3) by (intro fl_nonneg) simp
qed

lemma min_lipschitz: "\<bar>min c x - min c y\<bar> \<le> \<bar>x - y\<bar>" for c x y :: rat
  by (auto simp: min_def abs_if)

lemma scoreComposition_accuracy:
  assumes "h \<le> n" "u \<le> max 1 wc"
    and "hitRatioOf h n = Some hr" "scoreComposition hr wc fc u = Some s"
  shows "\<bar>s - exact_score h n wc fc u\<bar> \<le> 425 / 2 ^ 53"
proof -
  define eps :: rat where "eps = 1 / 2 ^ 53"
  define q :: rat where "q = (if n = 0 then 0 else of_nat h / of_nat n)"
  define m :: rat where "m = of_nat (min wc 200) / 200"
  define v :: rat where "v = of_nat u / of_nat (max 1 wc)"
  define c :: rat where "c = min 15 (of_nat fc * 3)"
  have q: "0 \<le> q" "q \<le> 1" using assms(1) by (simp_all add: q_def)
  have m: "0 \<le> m" "m \<le> 1" by (simp_all add: m_def)
  have v: "0 \<le> v" "v \<le> 1" using assms(2) by (simp_all add: v_def)
  have c: "0 \<le> c" "c \<le> 15" by (simp_all add: c_def)
  have hr: "hr = fl q"
    using assms(3) unfolding hitRatioOf_Some q_def by (auto simp: fl_zero split: if_splits)
  define a where "a = min 20 (fl (fl q * 20))"
  define b where "b = min 15 (fl (fl m * 15))"
  define d where "d = min 10 (fl (fl v * 10))"
  define a' where "a' = min 20 (q * 20)"
  define b' where "b' = min 15 (m * 15)"
  define d' where "d' = min 10 (v * 10)"
  define s1 where "s1 = fl (50 + a)"
  define s2 where "s2 = fl (s1 + b)"
  define s3 where "s3 = fl (s2 - c)"
  have s: "s = fl (s3 + d)"
    using assms(4) unfolding scoreComposition_Some hr a_def b_def c_def d_def m_def v_def
      s1_def s2_def s3_def filler_penalty_exact by simp
  have ex: "exact_score h n wc fc u = 50 + a' + b' - c + d'"
    unfolding exact_score_def q_def m_def v_def c_def a'_def b'_def d'_def ..
  have "\<bar>fl (fl q * 20) - q * 20\<bar> \<le> 40 * eps"
    using scaled_ratio_error(1) [OF q, of 20] unfolding eps_def by simp
  then have ea: "\<bar>a - a'\<bar> \<le> 40 * eps"
    using min_lipschitz [of 20 "fl (fl q * 20)" "q * 20"] unfolding a_def a'_def by (rule order_trans [rotated])
  have a: "0 \<le> a" "a \<le> 20"
    using scaled_ratio_error(2) [OF q, of 20] unfolding a_def by simp_all
  have "\<bar>fl (fl m * 15) - m * 15\<bar> \<le> 30 * eps"
    using scaled_ratio_error(1) [OF m, of 15] unfolding eps_def by simp
  then have eb: "\<bar>b - b'\<bar> \<le> 30 * eps"
    using min_lipschitz [of 15 "fl (fl m * 15)" "m * 15"] unfolding b_def b'_def by (rule order_trans [rotated])
  have b: "0 \<le> b" "b \<le> 15"
    using scaled_ratio_error(2) [OF m, of 15] unfolding b_def by simp_all
  have "\<bar>fl (fl v * 10) - v * 10\<bar> \<le> 20 * eps"
    using scaled_ratio_error(1) [OF v, of 10] unfolding eps_def by simp
  then have ed: "\<bar>d - d'\<bar> \<le> 20 * eps"
    using min_lipschitz [of 10 "fl (fl v * 10)" "v * 10"] unfolding d_def d'_def by (rule order_trans [rotated])
  have d: "0 \<le> d" "d \<le> 10"
    using scaled_ratio_error(2) [OF v, of 10] unfolding d_def by simp_all
  have r1: "50 \<le> s1" "s1 \<le> 70"
    unfolding s1_def using a by (intro fl_between [where lo = 50 and hi = 70]; simp add: fl_consts)+
  have e1: "\<bar>s1 - (50 + a)\<bar> \<le> 70 * eps"
    using a fl_error_bound [of "50 + a" 70] unfolding eps_def s1_def by simp
  have r2: "50 \<le> s2" "s2 \<le> 85"
    unfolding s2_def using r1 b by (intro fl_between [where lo = 50 and hi = 85]; simp add: fl_consts)+
  have e2: "\<bar>s2 - (s1 + b)\<bar> \<le> 85 * eps"
    using r1 b fl_error_bound [of "s1 + b" 85] unfolding eps_def s2_def by simp
  have r3: "35 \<le> s3" "s3 \<le> 85"
    unfolding s3_def using r2 c by (intro fl_between [where lo = 35 and hi = 85]; simp add: fl_consts)+
  have e3: "\<bar>s3 - (s2 - c)\<bar> \<le> 85 * eps"
    using r2 c fl_error_bound [of "s2 - c" 85] unfolding eps_def s3_def by simp
  have e4: "\<bar>s - (s3 + d)\<bar> \<le> 95 * eps"
    using r3 d fl_error_bound [of "s3 + d" 95] unfolding eps_def s by simp
  have t1: "\<bar>s1 - (50 + a')\<bar> \<le> 110 * eps" using e1 ea by linarith
  have t2: "\<bar>s2 - (50 + a' + b')\<bar> \<le> 225 * eps" using t1 e2 eb by linarith
  have t3: "\<bar>s3 - (50 + a' + b' - c)\<bar> \<le> 310 * eps" using t2 e3 by linarith
  have "\<bar>s - (50 + a' + b' - c + d')\<bar> \<le> 425 * eps" using t3 e4 ed by linarith
  then show ?thesis unfolding ex by (simp add: eps_def)
qed

lemma Math_round_error: "\<bar>of_int (Math_round x) - x\<bar> \<le> 1 / 2"
  unfolding Math_round_def by linarith

section \<open>The claims of the specification\<close>

text \<open>
  \<^bold>\<open>C1, as the specification states it,\<close> fails. The transcript of 120 words below, 10 of
  them distinct, with one hit among three keywords and no filler, has the exact value
  \<open>133/2\<close> under the law, which rounds to 67; the program's binary64 value lies just below
  \<open>133/2\<close> and the score is 66. No other reading of the rounding helps: the transcript of
  20 words, 10 of them distinct, with one hit among two keywords has the same exact value
  \<open>133/2\<close>, and there the score is 67.
\<close>

theorem C1_counterexample:
  "scoreAnswer ''a b c d e f g h i j a b c d e f g h i j a b c d e f g h i j a b c d e f g h i j a b c d e f g h i j a b c d e f g h i j a b c d e f g h i j a b c d e f g h i j a b c d e f g h i j a b c d e f g h i j a b c d e f g h i j a b c d e f g h i j'' [''a'', ''zz'', ''yy'']
     = Some \<lparr>score = 66, wordCount = 120, hits = 1, fillerCount = 0\<rparr>
   \<and> card (set (wordsOf (normalizeText ''a b c d e f g h i j a b c d e f g h i j a b c d e f g h i j a b c d e f g h i j a b c d e f g h i j a b c d e f g h i j a b c d e f g h i j a b c d e f g h i j a b c d e f g h i j a b c d e f g h i j a b c d e f g h i j a b c d e f g h i j''))) = 10
   \<and> exact_score 1 3 120 0 10 = 133 / 2
   \<and> spec_score 1 3 120 0 10 = 67
   \<and> scoreAnswer ''a b c d e f g h i j a b c d e f g h i j'' [''a'', ''zz'']
     = Some \<lparr>score = 67, wordCount = 20, hits = 1, fillerCount = 0\<rparr>
   \<and> card (set (wordsOf (normalizeText ''a b c d e f g h i j a b c d e f g h i j''))) = 10
   \<and> exact_score 1 2 20 0 10 = 133 / 2
   \<and> spec_score 1 2 20 0 10 = 67"
proof -
  have b: "scoreAnswer ''a b c d e f g h i j a b c d e f g h i j a b c d e f g h i j a b c d e f g h i j a b c d e f g h i j a b c d e f g h i j a b c d e f g h i j a b c d e f g h i j a b c d e f g h i j a b c d e f g h i j a b c d e f g h i j a b c d e f g h i j'' [''a'', ''zz'', ''yy'']
     = Some \<lparr>score = 66, wordCount = 120, hits = 1, fillerCount = 0\<rparr>"
    by code_simp
  have ub: "card (set (wordsOf (normalizeText ''a b c d e f g h i j a b c d e f g h i j a b c d e f g h i j a b c d e f g h i j a b c d e f g h i j a b c d e f g h i j a b c d e f g h i j a b c d e f g h i j a b c d e f g h i j a b c d e f g h i j a b c d e f g h i j a b c d e f g h i j''))) = 10"
    by code_simp
  have a: "scoreAnswer ''a b c d e f g h i j a b c d e f g h i j'' [''a'', ''zz'']
     = Some \<lparr>score = 67, wordCount = 20, hits = 1, fillerCount = 0\<rparr>"
    by code_simp
  have ua: "card (set (wordsOf (normalizeText ''a b c d e f g h i j a b c d e f g h i j''))) = 10"
    by code_simp
  have e: "exact_score 1 3 120 0 10 = 133 / 2" "exact_score 1 2 20 0 10 = 133 / 2"
    by (simp_all add: exact_score_def)
  have r: "Math_round (133 / 2) = 67" unfolding Math_round_def by simp
  have l: "spec_score 1 3 120 0 10 = 67" "spec_score 1 2 20 0 10 = 67"
    unfolding spec_score_def e using r by simp_all
  show ?thesis using a b ua ub e l by blast
qed

text \<open>
  \<^bold>\<open>C1, amended.\<close> For every transcript and keyword list, the score that \<open>scoreAnswer\<close>
  returns is the value of the specification's law evaluated in the arithmetic of the
  program's numbers, where every division, multiplication, addition and subtraction
  rounds its result to binary64: base 50, plus \<open>min(20, hit_ratio * 20)\<close>, plus
  \<open>min(15, min(word_count, 200) / 200 * 15)\<close>, minus \<open>min(15, filler_count * 3)\<close>, plus
  \<open>min(10, distinct_words / max(1, word_count) * 10)\<close>, clamped to \<open>[0, 100]\<close> and then
  rounded to the nearest integer, the larger one at a tie. The program rounds first and
  clamps after; both orders give the same integer. The score is within
  \<open>1/2 + 425 / 2\<^sup>5\<^sup>3\<close> of the exact value of the law.
\<close>

theorem C1_composition:
  "\<exists>r. scoreAnswer t ks = Some r
     \<and> score r = binary64_score (hits r) (length ks) (wordCount r) (fillerCount r)
                    (card (set (wordsOf (normalizeText t))))
     \<and> \<bar>of_int (score r) - exact_score (hits r) (length ks) (wordCount r) (fillerCount r)
                    (card (set (wordsOf (normalizeText t))))\<bar> \<le> 1 / 2 + 425 / 2 ^ 53"
proof -
  obtain hr s where
    hr: "hitRatioOf (countIncluded (normalizeText t) toLowerCase ks) (length ks) = Some hr" and
    s: "scoreComposition hr (length (wordsOf (normalizeText t)))
          (countIncluded (normalizeText t) (\<lambda>f. f) fillers)
          (card (set (wordsOf (normalizeText t)))) = Some s" and
    r: "scoreAnswer t ks =
       Some \<lparr>score = max 0 (min 100 (Math_round s)),
             wordCount = length (wordsOf (normalizeText t)),
             hits = countIncluded (normalizeText t) toLowerCase ks,
             fillerCount = countIncluded (normalizeText t) (\<lambda>f. f) fillers\<rparr>"
    by (rule scoreAnswer_cases)
  define h where "h = countIncluded (normalizeText t) toLowerCase ks"
  define wc where "wc = length (wordsOf (normalizeText t))"
  define fc where "fc = countIncluded (normalizeText t) (\<lambda>f. f) fillers"
  define u where "u = card (set (wordsOf (normalizeText t)))"
  define R where "R = \<lparr>score = max 0 (min 100 (Math_round s)), wordCount = wc,
    hits = h, fillerCount = fc\<rparr>"
  have r': "scoreAnswer t ks = Some R" using r unfolding R_def h_def wc_def fc_def .
  have f: "hits R = h" "wordCount R = wc" "fillerCount R = fc"
    "score R = max 0 (min 100 (Math_round s))" unfolding R_def by simp_all
  have hr': "hr = (if length ks = 0 then 0 else fl (of_nat h / of_nat (length ks)))"
    using hr unfolding hitRatioOf_Some h_def by simp
  have s': "s = fl (fl (fl (fl (50 + min 20 (fl (hr * 20)))
                 + min 15 (fl (fl (of_nat (min wc 200) / 200) * 15)))
             - min 15 (fl (of_nat fc * 3)))
         + min 10 (fl (fl (of_nat u / of_nat (max 1 wc)) * 10)))"
    using s unfolding scoreComposition_Some wc_def fc_def u_def by simp
  have "binary64_score h (length ks) wc fc u = Math_round (max 0 (min 100 s))"
    unfolding binary64_score_def Let_def s' hr' ..
  then have law: "score R = binary64_score h (length ks) wc fc u"
    unfolding f by (simp only: Math_round_clamp)
  have hn: "h \<le> length ks" unfolding h_def by (rule countIncluded_le)
  have "u \<le> wc" unfolding u_def wc_def by (rule card_length)
  then have uw: "u \<le> max 1 wc" by simp
  have acc: "\<bar>s - exact_score h (length ks) wc fc u\<bar> \<le> 425 / 2 ^ 53"
    using hn uw hr [folded h_def] s [folded wc_def fc_def u_def]
    by (rule scoreComposition_accuracy)
  have "0 \<le> hr" using hr by (rule hitRatioOf_nonneg)
  then have b: "35 \<le> s" "s \<le> 95" using s by (rule scoreComposition_bounds)+
  have "Math_round 35 \<le> Math_round s" "Math_round s \<le> Math_round 95"
    using b by (simp_all add: Math_round_mono)
  then have "35 \<le> Math_round s" "Math_round s \<le> 95"
    using Math_round_of_int [of 35] Math_round_of_int [of 95] by simp_all
  then have "score R = Math_round s" unfolding f by simp
  then have "\<bar>of_int (score R) - exact_score h (length ks) wc fc u\<bar> \<le> 1 / 2 + 425 / 2 ^ 53"
    using acc Math_round_error [of s] by linarith
  then show ?thesis
    using r' law unfolding f(1-3) [symmetric] u_def by blast
qed

text \<open>
  \<^bold>\<open>C2.\<close> For every transcript and keyword list, \<open>scoreAnswer\<close> returns an object whose
  score is an integer between 0 and 100, whose word count and filler count are natural
  numbers, and whose hit count lies between 0 and the length of the keyword list (the
  specification's keyword set is this sequence). Integrality and the lower bounds of the
  counts are carried by the types \<^typ>\<open>int\<close> and \<^typ>\<open>nat\<close> of the fields.
\<close>

theorem C2_ranges:
  "\<exists>r. scoreAnswer t ks = Some r
     \<and> 0 \<le> score r \<and> score r \<le> 100
     \<and> 0 \<le> int (wordCount r)
     \<and> 0 \<le> int (hits r) \<and> hits r \<le> length ks
     \<and> 0 \<le> int (fillerCount r)"
proof -
  obtain hr s where
    r: "scoreAnswer t ks =
       Some \<lparr>score = max 0 (min 100 (Math_round s)),
             wordCount = length (wordsOf (normalizeText t)),
             hits = countIncluded (normalizeText t) toLowerCase ks,
             fillerCount = countIncluded (normalizeText t) (\<lambda>f. f) fillers\<rparr>"
    by (rule scoreAnswer_cases)
  show ?thesis
    unfolding r by (simp add: countIncluded_le)
qed

text \<open>
  \<^bold>\<open>C3, as the specification states it,\<close> fails: the empty string is a keyword that every
  text includes, the empty text too. For the empty transcript and the keyword list \<^verbatim>\<open>['']\<close>
  the scorer counts one hit and returns the score 70.
\<close>

theorem C3_counterexample:
  "scoreAnswer '''' [''''] = Some \<lparr>score = 70, wordCount = 0, hits = 1, fillerCount = 0\<rparr>"
  by code_simp

text \<open>
  \<^bold>\<open>C3, amended.\<close> For the empty transcript and every keyword list that does not contain
  the empty string, \<open>scoreAnswer\<close> returns score 50, word count 0, hits 0 and filler
  count 0.
\<close>

theorem C3_empty_transcript:
  assumes "'''' \<notin> set keywords"
  shows "scoreAnswer '''' keywords = Some \<lparr>score = 50, wordCount = 0, hits = 0, fillerCount = 0\<rparr>"
proof -
  have "filter (\<lambda>k. toLowerCase k = []) keywords = []"
    using assms by (auto simp: toLowerCase_Nil_iff filter_empty_conv)
  then have h: "countIncluded [] toLowerCase keywords = 0"
    by (simp add: countIncluded_Nil_text)
  have hr: "hitRatioOf 0 (length keywords) = Some 0"
    by (simp add: hitRatioOf_Some fl_zero)
  have r: "Math_round 50 = 50"
    using Math_round_of_int [of 50] by simp
  show ?thesis
    by (simp add: scoreAnswer_def Let_def normalizeText_Nil wordsOf_Nil h hr
        countIncluded_fillers_Nil scoreComposition_zero r)
qed

theorem C3_empty_transcript_witness:
  "'''' \<notin> set [''refresh'', ''token'', ''secure'', ''storage'', ''.NET'']
   \<and> scoreAnswer '''' [''refresh'', ''token'', ''secure'', ''storage'', ''.NET'']
       = Some \<lparr>score = 50, wordCount = 0, hits = 0, fillerCount = 0\<rparr>"
proof -
  have h: "'''' \<notin> set [''refresh'', ''token'', ''secure'', ''storage'', ''.NET'']" by simp
  show ?thesis using h C3_empty_transcript [OF h] by simp
qed




text \<open>
  \<^bold>\<open>C5.\<close> For every transcript and keyword list, the hit count is the number of entries
  of the keyword list whose lower-cased form occurs as a substring of the normalized
  transcript: the normalized transcript is some \<open>u\<close>, the lower-cased keyword, some \<open>v\<close>,
  wherever words begin or end. The keyword \<^verbatim>\<open>React\<close> is a hit for the transcript
  \<^verbatim>\<open>I used reactjs extensively\<close>.
\<close>

theorem C5_hits:
  "(\<exists>r. scoreAnswer t ks = Some r
      \<and> hits r = length (filter (\<lambda>k. \<exists>u v. normalizeText t = u @ toLowerCase k @ v) ks))
   \<and> (\<exists>r. scoreAnswer ''I used reactjs extensively'' [''React''] = Some r \<and> hits r = 1)"
proof
  show "\<exists>r. scoreAnswer t ks = Some r
      \<and> hits r = length (filter (\<lambda>k. \<exists>u v. normalizeText t = u @ toLowerCase k @ v) ks)"
    using scoreAnswer_fields [of t ks]
    by (auto simp only: countIncluded_filter includesStr_iff)
  have e: "countIncluded (normalizeText ''I used reactjs extensively'') toLowerCase [''React''] = 1"
    by code_simp
  show "\<exists>r. scoreAnswer ''I used reactjs extensively'' [''React''] = Some r \<and> hits r = 1"
    using scoreAnswer_fields [of "''I used reactjs extensively''" "[''React'']"]
    unfolding e by blast
qed

text \<open>
  \<^bold>\<open>C6.\<close> \<open>scoreAnswer\<close> returns an object for every transcript and every keyword list,
  the empty list included: no operation of a run produces a number that is not finite.
  For an empty keyword list the hit ratio is 0 and the division, which would not give a
  finite number, is not performed.
\<close>

theorem C6_total:
  "(\<exists>r. scoreAnswer t ks = Some r)
   \<and> (\<exists>r. scoreAnswer t [] = Some r)
   \<and> hitRatioOf h 0 = Some 0
   \<and> numDivide (of_nat h) (of_nat 0) = None"
proof (intro conjI)
  show "\<exists>r. scoreAnswer t ks = Some r" by (rule scoreAnswer_cases [of t ks]) blast
  show "\<exists>r. scoreAnswer t [] = Some r" by (rule scoreAnswer_cases [of t "[]"]) blast
  show "hitRatioOf h 0 = Some 0" by (simp add: hitRatioOf_def)
  show "numDivide (of_nat h) (of_nat 0) = None" by (simp add: numDivide_def)
qed

text \<open>
  \<^bold>\<open>C7.\<close> For every transcript, the filler count is the number of entries of the fixed
  vocabulary \<^verbatim>\<open>um\<close>, \<^verbatim>\<open>uh\<close>, \<^verbatim>\<open>like\<close>, \<^verbatim>\<open>you know\<close>, \<^verbatim>\<open>so\<close>, \<^verbatim>\<open>actually\<close> that occur as a
  substring of the normalized transcript. An entry counts once however often it occurs, so
  the count is at most 6; the transcript \<^verbatim>\<open>um so I like this\<close> has filler count 3, and
  \<^verbatim>\<open>um um so um\<close> has filler count 2.
\<close>

theorem C7_fillers:
  "(\<exists>r. scoreAnswer t ks = Some r
      \<and> fillerCount r = length (filter (\<lambda>f. \<exists>u v. normalizeText t = u @ f @ v) fillers)
      \<and> fillerCount r \<le> 6)
   \<and> fillers = [''um'', ''uh'', ''like'', ''you know'', ''so'', ''actually'']
   \<and> (\<exists>r. scoreAnswer ''um so I like this'' ks = Some r \<and> fillerCount r = 3)
   \<and> (\<exists>r. scoreAnswer ''um um so um'' ks = Some r \<and> fillerCount r = 2)"
proof (intro conjI)
  have "length fillers = 6" by (simp add: fillers_def)
  then have b: "countIncluded (normalizeText t) (\<lambda>f. f) fillers \<le> 6"
    using countIncluded_le [of "normalizeText t" "\<lambda>f. f" fillers] by simp
  have a: "countIncluded (normalizeText t) (\<lambda>f. f) fillers
      = length (filter (\<lambda>f. \<exists>u v. normalizeText t = u @ f @ v) fillers)"
    by (simp only: countIncluded_filter includesStr_iff)
  show "\<exists>r. scoreAnswer t ks = Some r
      \<and> fillerCount r = length (filter (\<lambda>f. \<exists>u v. normalizeText t = u @ f @ v) fillers)
      \<and> fillerCount r \<le> 6"
    using scoreAnswer_fields [of t ks] a b by auto
  show "fillers = [''um'', ''uh'', ''like'', ''you know'', ''so'', ''actually'']"
    by (rule fillers_def)
  have e: "countIncluded (normalizeText ''um so I like this'') (\<lambda>f. f) fillers = 3"
    by code_simp
  show "\<exists>r. scoreAnswer ''um so I like this'' ks = Some r \<and> fillerCount r = 3"
    using scoreAnswer_fields [of "''um so I like this''" ks] unfolding e by blast
  have e': "countIncluded (normalizeText ''um um so um'') (\<lambda>f. f) fillers = 2"
    by code_simp
  show "\<exists>r. scoreAnswer ''um um so um'' ks = Some r \<and> fillerCount r = 2"
    using scoreAnswer_fields [of "''um um so um''" ks] unfolding e' by blast
qed

text \<open>
  \<^bold>\<open>C8.\<close> For the transcript \<^verbatim>\<open>I implemented authentication using refresh tokens and secure storage.\<close>
  and the keywords \<^verbatim>\<open>refresh\<close>, \<^verbatim>\<open>token\<close>, \<^verbatim>\<open>secure\<close>, \<^verbatim>\<open>storage\<close>, \<^verbatim>\<open>.NET\<close> the scorer
  returns 4 hits and 9 words; the keyword \<^verbatim>\<open>.NET\<close> is not matched.
\<close>

theorem C8_example:
  "(\<exists>r. scoreAnswer ''I implemented authentication using refresh tokens and secure storage.''
          [''refresh'', ''token'', ''secure'', ''storage'', ''.NET''] = Some r
        \<and> hits r = 4 \<and> wordCount r = 9)
   \<and> \<not> includesStr
        (normalizeText ''I implemented authentication using refresh tokens and secure storage.'')
        (toLowerCase ''.NET'')"
proof
  have h: "countIncluded
      (normalizeText ''I implemented authentication using refresh tokens and secure storage.'')
      toLowerCase [''refresh'', ''token'', ''secure'', ''storage'', ''.NET''] = 4"
    by code_simp
  have w: "length (wordsOf
      (normalizeText ''I implemented authentication using refresh tokens and secure storage.'')) = 9"
    by code_simp
  show "\<exists>r. scoreAnswer ''I implemented authentication using refresh tokens and secure storage.''
          [''refresh'', ''token'', ''secure'', ''storage'', ''.NET''] = Some r
        \<and> hits r = 4 \<and> wordCount r = 9"
    using scoreAnswer_fields
      [of "''I implemented authentication using refresh tokens and secure storage.''"
          "[''refresh'', ''token'', ''secure'', ''storage'', ''.NET'']"]
    unfolding h w by blast
  show "\<not> includesStr
        (normalizeText ''I implemented authentication using refresh tokens and secure storage.'')
        (toLowerCase ''.NET'')"
    by code_simp
qed

text \<open>
  \<^bold>\<open>C9.\<close> Two inputs of the scorer with the same word count, the same number of distinct
  words, the same filler count and keyword lists of the same length, the second with at
  least as many hits as the first: the score of the second is at least the score of the
  first.
\<close>

theorem C9_monotone:
  assumes "scoreAnswer t1 ks1 = Some r1" and "scoreAnswer t2 ks2 = Some r2"
    and "wordCount r1 = wordCount r2"
    and "card (set (wordsOf (normalizeText t1))) = card (set (wordsOf (normalizeText t2)))"
    and "fillerCount r1 = fillerCount r2"
    and "length ks1 = length ks2"
    and "hits r1 \<le> hits r2"
  shows "score r1 \<le> score r2"
proof -
  obtain hr1 s1 where
    hr1: "hitRatioOf (countIncluded (normalizeText t1) toLowerCase ks1) (length ks1) = Some hr1" and
    s1: "scoreComposition hr1 (length (wordsOf (normalizeText t1)))
          (countIncluded (normalizeText t1) (\<lambda>f. f) fillers)
          (card (set (wordsOf (normalizeText t1)))) = Some s1" and
    e1: "scoreAnswer t1 ks1 =
       Some \<lparr>score = max 0 (min 100 (Math_round s1)),
             wordCount = length (wordsOf (normalizeText t1)),
             hits = countIncluded (normalizeText t1) toLowerCase ks1,
             fillerCount = countIncluded (normalizeText t1) (\<lambda>f. f) fillers\<rparr>"
    by (rule scoreAnswer_cases)
  obtain hr2 s2 where
    hr2: "hitRatioOf (countIncluded (normalizeText t2) toLowerCase ks2) (length ks2) = Some hr2" and
    s2: "scoreComposition hr2 (length (wordsOf (normalizeText t2)))
          (countIncluded (normalizeText t2) (\<lambda>f. f) fillers)
          (card (set (wordsOf (normalizeText t2)))) = Some s2" and
    e2: "scoreAnswer t2 ks2 =
       Some \<lparr>score = max 0 (min 100 (Math_round s2)),
             wordCount = length (wordsOf (normalizeText t2)),
             hits = countIncluded (normalizeText t2) toLowerCase ks2,
             fillerCount = countIncluded (normalizeText t2) (\<lambda>f. f) fillers\<rparr>"
    by (rule scoreAnswer_cases)
  have r1: "r1 = \<lparr>score = max 0 (min 100 (Math_round s1)),
             wordCount = length (wordsOf (normalizeText t1)),
             hits = countIncluded (normalizeText t1) toLowerCase ks1,
             fillerCount = countIncluded (normalizeText t1) (\<lambda>f. f) fillers\<rparr>"
    using assms(1) e1 by simp
  have r2: "r2 = \<lparr>score = max 0 (min 100 (Math_round s2)),
             wordCount = length (wordsOf (normalizeText t2)),
             hits = countIncluded (normalizeText t2) toLowerCase ks2,
             fillerCount = countIncluded (normalizeText t2) (\<lambda>f. f) fillers\<rparr>"
    using assms(2) e2 by simp
  have wc: "length (wordsOf (normalizeText t1)) = length (wordsOf (normalizeText t2))"
    using assms(3) unfolding r1 r2 by simp
  have fc: "countIncluded (normalizeText t1) (\<lambda>f. f) fillers
      = countIncluded (normalizeText t2) (\<lambda>f. f) fillers"
    using assms(5) unfolding r1 r2 by simp
  have h: "countIncluded (normalizeText t1) toLowerCase ks1
      \<le> countIncluded (normalizeText t2) toLowerCase ks2"
    using assms(7) unfolding r1 r2 by simp
  have "hr1 \<le> hr2"
    using h hr1 hr2 [folded assms(6)] by (rule hitRatioOf_mono)
  then have "s1 \<le> s2"
    using s1 s2 [folded wc fc assms(4)] by (rule scoreComposition_mono)
  then have "Math_round s1 \<le> Math_round s2" by (rule Math_round_mono)
  then show ?thesis unfolding r1 r2 by simp
qed

theorem C9_monotone_witness:
  "scoreAnswer ''I like java'' [''react'', ''expo'']
     = Some \<lparr>score = 57, wordCount = 3, hits = 0, fillerCount = 1\<rparr>
   \<and> scoreAnswer ''I like react'' [''react'', ''expo'']
     = Some \<lparr>score = 67, wordCount = 3, hits = 1, fillerCount = 1\<rparr>
   \<and> card (set (wordsOf (normalizeText ''I like java''))) = 3
   \<and> card (set (wordsOf (normalizeText ''I like react''))) = 3
   \<and> (57::int) \<le> 67"
proof -
  have e1: "scoreAnswer ''I like java'' [''react'', ''expo'']
     = Some \<lparr>score = 57, wordCount = 3, hits = 0, fillerCount = 1\<rparr>" by code_simp
  have e2: "scoreAnswer ''I like react'' [''react'', ''expo'']
     = Some \<lparr>score = 67, wordCount = 3, hits = 1, fillerCount = 1\<rparr>" by code_simp
  have u1: "card (set (wordsOf (normalizeText ''I like java''))) = 3" by code_simp
  have u2: "card (set (wordsOf (normalizeText ''I like react''))) = 3" by code_simp
  have "score \<lparr>score = 57, wordCount = 3, hits = 0, fillerCount = 1\<rparr>
      \<le> score \<lparr>score = 67, wordCount = 3, hits = 1, fillerCount = 1\<rparr>"
    by (rule C9_monotone [OF e1 e2]) (simp_all add: u1 u2)
  then show ?thesis using e1 e2 u1 u2 by simp
qed

text \<open>
  \<^bold>\<open>C10.\<close> For every transcript and keyword list, the variable \<^verbatim>\<open>score\<close> lies in
  \<open>[35, 95]\<close> after its last update, and so does its rounding; the clamp to \<open>[0, 100]\<close>
  leaves the rounded value as it is, and the returned score lies in \<open>[35, 95]\<close>.
\<close>

theorem C10_range:
  "\<exists>hr s r.
      hitRatioOf (countIncluded (normalizeText t) toLowerCase ks) (length ks) = Some hr
    \<and> scoreComposition hr (length (wordsOf (normalizeText t)))
          (countIncluded (normalizeText t) (\<lambda>f. f) fillers)
          (card (set (wordsOf (normalizeText t)))) = Some s
    \<and> scoreAnswer t ks = Some r
    \<and> 35 \<le> s \<and> s \<le> 95
    \<and> 35 \<le> Math_round s \<and> Math_round s \<le> 95
    \<and> max 0 (min 100 (Math_round s)) = Math_round s
    \<and> score r = Math_round s
    \<and> 35 \<le> score r \<and> score r \<le> 95"
proof -
  obtain hr s where
    hr: "hitRatioOf (countIncluded (normalizeText t) toLowerCase ks) (length ks) = Some hr" and
    s: "scoreComposition hr (length (wordsOf (normalizeText t)))
          (countIncluded (normalizeText t) (\<lambda>f. f) fillers)
          (card (set (wordsOf (normalizeText t)))) = Some s" and
    r: "scoreAnswer t ks =
       Some \<lparr>score = max 0 (min 100 (Math_round s)),
             wordCount = length (wordsOf (normalizeText t)),
             hits = countIncluded (normalizeText t) toLowerCase ks,
             fillerCount = countIncluded (normalizeText t) (\<lambda>f. f) fillers\<rparr>"
    by (rule scoreAnswer_cases)
  have "0 \<le> hr" using hr by (rule hitRatioOf_nonneg)
  then have b: "35 \<le> s" "s \<le> 95" using s by (rule scoreComposition_bounds)+
  have "Math_round 35 \<le> Math_round s" "Math_round s \<le> Math_round 95"
    using b by (simp_all add: Math_round_mono)
  then have m: "35 \<le> Math_round s" "Math_round s \<le> 95"
    using Math_round_of_int [of 35] Math_round_of_int [of 95] by simp_all
  then have c: "max 0 (min 100 (Math_round s)) = Math_round s" by simp
  define R where "R = \<lparr>score = max 0 (min 100 (Math_round s)),
             wordCount = length (wordsOf (normalizeText t)),
             hits = countIncluded (normalizeText t) toLowerCase ks,
             fillerCount = countIncluded (normalizeText t) (\<lambda>f. f) fillers\<rparr>"
  have r': "scoreAnswer t ks = Some R" using r unfolding R_def .
  have sc: "score R = Math_round s" unfolding R_def using c by simp
  have sr: "35 \<le> score R" "score R \<le> 95" using m unfolding sc by simp_all
  show ?thesis
    using hr s r' b m c sc sr by blast
qed

end
